theory Spec2Isabelle
  imports
    Main
    "HOL-Library.AList"
    "HOL-Library.Char_ord"
    "HOL-Library.List_Lexorder"
    "HOL-Library.Product_Lexorder"
    "HOL-Library.Multiset"
begin

section \<open>Data model of the section classifier (src/app.py, analyze\_mortgage\_sections)\<close>

text \<open>
  One extracted line of text: the dict \<^verbatim>\<open>{"text": ..., "page": ..., "method": ...}\<close>
  that \<^verbatim>\<open>extract_text_from_pdf\<close> appends to \<^verbatim>\<open>text_content\<close>.
\<close>

record fragment =
  item_text :: string
  item_page :: int
  item_method :: string

text \<open>An entry of the list \<^verbatim>\<open>section_rules\<close>.\<close>

record rule =
  patterns :: "string list"
  label :: string
  rule_priority :: int

text \<open>
  The confidence strings \<^verbatim>\<open>"high"\<close>, \<^verbatim>\<open>"medium"\<close>, \<^verbatim>\<open>"low"\<close>: the keys of
  \<^verbatim>\<open>confidence_rank\<close>. The code only ever writes the first two literals.
\<close>

datatype confidence_tier = High | Medium | Low

text \<open>A value of the dict \<^verbatim>\<open>found_sections\<close>, which is also an element of the result.\<close>

record identified_section =
  section_type :: string
  page :: int
  confidence :: confidence_tier
  text_snippet :: string
  priority :: int
  pattern_matched :: string

text \<open>
  \<^verbatim>\<open>found_sections\<close> is a Python dict from label to section. A dict keeps its keys in
  insertion order, and \<^verbatim>\<open>list(found_sections.values())\<close> reads them in that order, so
  it is an association list: a new key goes to the end, an existing key is rewritten in
  place (\<open>AList.update\<close> does both), and lookup is \<open>map_of\<close>.
\<close>

type_synonym found = "(string \<times> identified_section) list"

section \<open>String operations of Python used by the classifier\<close>

text \<open>
  Characters are bytes here; the model is exact on ASCII text. \<^verbatim>\<open>str.upper\<close> maps
  \<^verbatim>\<open>a\<close>..\<^verbatim>\<open>z\<close> to \<^verbatim>\<open>A\<close>..\<^verbatim>\<open>Z\<close> and leaves every other ASCII character unchanged.
\<close>

definition upper_char :: "char \<Rightarrow> char" where
  "upper_char c =
     (case map_of (zip ''abcdefghijklmnopqrstuvwxyz'' ''ABCDEFGHIJKLMNOPQRSTUVWXYZ'') c of
        None \<Rightarrow> c
      | Some u \<Rightarrow> u)"

definition upper :: "string \<Rightarrow> string" where
  "upper s = map upper_char s"

text \<open>
  The ASCII characters for which \<^verbatim>\<open>str.isspace\<close> holds: tab, line feed, vertical tab,
  form feed, carriage return, the four separators 0x1C..0x1F, and the space.
\<close>

definition is_space :: "char \<Rightarrow> bool" where
  "is_space c =
     (c \<in> set [CHR 0x09, CHR 0x0A, CHR 0x0B, CHR 0x0C, CHR 0x0D,
               CHR 0x1C, CHR 0x1D, CHR 0x1E, CHR 0x1F, CHR 0x20])"

text \<open>\<^verbatim>\<open>s.strip()\<close>: whitespace removed at both ends.\<close>

definition strip :: "string \<Rightarrow> string" where
  "strip s = rev (dropWhile is_space (rev (dropWhile is_space s)))"

text \<open>
  \<^verbatim>\<open>s.split()\<close>: the maximal runs of non-whitespace characters, in order. The first
  argument is the word being read.
\<close>

fun split_from :: "string \<Rightarrow> string \<Rightarrow> string list" where
  "split_from cur [] = (if cur = [] then [] else [cur])"
| "split_from cur (c # cs) =
     (if is_space c
      then (if cur = [] then split_from [] cs else cur # split_from [] cs)
      else split_from (cur @ [c]) cs)"

definition split :: "string \<Rightarrow> string list" where
  "split s = split_from [] s"

text \<open>\<^verbatim>\<open>p in t\<close> on strings: \<open>p\<close> occurs in \<open>t\<close> as a contiguous substring.\<close>

fun starts_with :: "string \<Rightarrow> string \<Rightarrow> bool" where
  "starts_with [] t = True"
| "starts_with (c # p) [] = False"
| "starts_with (c # p) (d # t) = (c = d \<and> starts_with p t)"

fun str_in :: "string \<Rightarrow> string \<Rightarrow> bool" where
  "str_in p [] = (p = [])"
| "str_in p (c # t) = (starts_with p (c # t) \<or> str_in p t)"

section \<open>The rule catalog\<close>

definition mk_rule :: "string list \<Rightarrow> string \<Rightarrow> int \<Rightarrow> rule" where
  "mk_rule ps l n = \<lparr>patterns = ps, label = l, rule_priority = n\<rparr>"

definition section_rules :: "rule list" where
  "section_rules =
    [mk_rule [''MORTGAGE'', ''DEED OF TRUST'', ''SECURITY INSTRUMENT''] ''Mortgage'' 10,
     mk_rule [''PROMISSORY NOTE'', ''NOTE''] ''Promissory Note'' 10,
     mk_rule [''LENDERS CLOSING INSTRUCTIONS'', ''CLOSING INSTRUCTIONS GUARANTY'',
              ''LENDER'' @ [CHR 0x27] @ ''S CLOSING INSTRUCTIONS'']
       ''Lenders Closing Instructions Guaranty'' 9,
     mk_rule [''SETTLEMENT STATEMENT'', ''HUD-1'', ''CLOSING DISCLOSURE'']
       ''Settlement Statement'' 9,
     mk_rule [''STATEMENT OF ANTI COERCION'', ''ANTI COERCION'', ''ANTI-COERCION FLORIDA'']
       ''Statement of Anti Coercion Florida'' 8,
     mk_rule [''CORRECTION AGREEMENT'', ''LIMITED POWER OF ATTORNEY'', ''POWER OF ATTORNEY'']
       ''Correction Agreement and Limited Power of Attorney'' 8,
     mk_rule [''ALL PURPOSE ACKNOWLEDGMENT'', ''ACKNOWLEDGMENT'', ''NOTARY ACKNOWLEDGMENT'']
       ''All Purpose Acknowledgment'' 8,
     mk_rule [''FLOOD HAZARD DETERMINATION'', ''FLOOD DETERMINATION'', ''FEMA FLOOD'']
       ''Flood Hazard Determination'' 7,
     mk_rule [''INSURANCE POLICY'', ''HOMEOWNER'' @ [CHR 0x27] @ ''S INSURANCE'',
              ''HAZARD INSURANCE'']
       ''Insurance Policy'' 7,
     mk_rule [''AUTOMATIC PAYMENTS AUTHORIZATION'', ''AUTOMATIC PAYMENT'', ''ACH AUTHORIZATION'']
       ''Automatic Payments Authorization'' 7,
     mk_rule [''TAX RECORD INFORMATION'', ''TAX RECORDS'', ''PROPERTY TAX'']
       ''Tax Record Information'' 7,
     mk_rule [''TITLE POLICY'', ''TITLE INSURANCE'', ''OWNER'' @ [CHR 0x27] @ ''S POLICY'']
       ''Title Policy'' 6,
     mk_rule [''DEED'', ''WARRANTY DEED'', ''QUITCLAIM DEED''] ''Deed'' 6,
     mk_rule [''UCC FILING'', ''UCC-1'', ''FINANCING STATEMENT''] ''UCC Filing'' 5,
     mk_rule [''SIGNATURE PAGE'', ''SIGNATURES'', ''BORROWER SIGNATURE''] ''Signature Page'' 5,
     mk_rule [''AFFIDAVIT'', ''SWORN STATEMENT''] ''Affidavit'' 5]"

section \<open>The classifier\<close>

text \<open>\<^verbatim>\<open>confidence_rank = {"high": 3, "medium": 2, "low": 1}\<close>.\<close>

fun confidence_rank :: "confidence_tier \<Rightarrow> nat" where
  "confidence_rank High = 3"
| "confidence_rank Medium = 2"
| "confidence_rank Low = 1"

text \<open>
  The block under \<^verbatim>\<open># Determine confidence\<close>: \<open>txt\<close> is the uppercased text of the
  fragment, \<open>ps\<close> the patterns of the rule and \<open>pattern\<close> the one that matched.
\<close>

definition determine_confidence :: "string list \<Rightarrow> string \<Rightarrow> string \<Rightarrow> confidence_tier" where
  "determine_confidence ps txt pattern =
     (if strip txt = pattern then High
      else if str_in pattern txt \<and> length (split txt) \<le> 10 then High
      else if length (filter (\<lambda>p. str_in p txt) ps) > 1 then High
      else Medium)"

text \<open>
  The block under \<^verbatim>\<open># Keep best match for each section type\<close>: insert the label when
  it is absent, otherwise rewrite page, confidence, snippet and pattern of the existing
  entry when the new match is better.
\<close>

definition keep_best :: "fragment \<Rightarrow> rule \<Rightarrow> string \<Rightarrow> confidence_tier \<Rightarrow> found \<Rightarrow> found" where
  "keep_best item r pattern conf fs =
     (case map_of fs (label r) of
        None \<Rightarrow>
          AList.update (label r)
            \<lparr>section_type = label r, page = item_page item, confidence = conf,
             text_snippet = take 100 (item_text item), priority = rule_priority r,
             pattern_matched = pattern\<rparr> fs
      | Some existing \<Rightarrow>
          if confidence_rank conf > confidence_rank (confidence existing) \<or>
             (conf = confidence existing \<and> rule_priority r \<ge> priority existing)
          then AList.update (label r)
                 (existing\<lparr>page := item_page item, confidence := conf,
                    text_snippet := take 100 (item_text item),
                    pattern_matched := pattern\<rparr>) fs
          else fs)"

text \<open>
  The body of \<^verbatim>\<open>for rule in section_rules\<close>: the inner loop over the patterns stops
  at the first pattern contained in the text (\<^verbatim>\<open>break\<close>), which \<open>find\<close> returns.
\<close>

definition apply_rule :: "fragment \<Rightarrow> rule \<Rightarrow> found \<Rightarrow> found" where
  "apply_rule item r fs =
     (case find (\<lambda>p. str_in p (upper (item_text item))) (patterns r) of
        None \<Rightarrow> fs
      | Some pattern \<Rightarrow>
          keep_best item r pattern
            (determine_confidence (patterns r) (upper (item_text item)) pattern) fs)"

text \<open>The body of \<^verbatim>\<open>for item in text_content\<close>, for a catalog \<open>rules\<close>.\<close>

definition analyze_item :: "rule list \<Rightarrow> fragment \<Rightarrow> found \<Rightarrow> found" where
  "analyze_item rules item fs = fold (apply_rule item) rules fs"

text \<open>The whole loop, from the empty dict. (The \<^verbatim>\<open>print\<close> calls only log.)\<close>

definition find_sections :: "rule list \<Rightarrow> fragment list \<Rightarrow> found" where
  "find_sections rules text_content = fold (analyze_item rules) text_content []"

text \<open>The sort key \<^verbatim>\<open>(-x["priority"], x["page"], x["section_type"])\<close>.\<close>

definition section_key :: "identified_section \<Rightarrow> int \<times> int \<times> string" where
  "section_key x = (- priority x, page x, section_type x)"

text \<open>
  The classifier for a given catalog; \<^verbatim>\<open>sorted\<close> is a stable sort, as \<open>sort_key\<close> is.
\<close>

definition analyze_with :: "rule list \<Rightarrow> fragment list \<Rightarrow> identified_section list" where
  "analyze_with rules text_content =
     sort_key section_key (map snd (find_sections rules text_content))"

definition analyze_mortgage_sections :: "fragment list \<Rightarrow> identified_section list" where
  "analyze_mortgage_sections text_content = analyze_with section_rules text_content"

section \<open>The classifier seen label by label\<close>

text \<open>
  What \<open>keep_best\<close> leaves under the label of the rule, as a function of what was
  there before (\<open>None\<close>: the label was absent).
\<close>

definition merge_entry ::
  "fragment \<Rightarrow> rule \<Rightarrow> string \<Rightarrow> confidence_tier \<Rightarrow> identified_section option
     \<Rightarrow> identified_section" where
  "merge_entry item r pattern conf e =
     (case e of
        None \<Rightarrow>
          \<lparr>section_type = label r, page = item_page item, confidence = conf,
           text_snippet = take 100 (item_text item), priority = rule_priority r,
           pattern_matched = pattern\<rparr>
      | Some existing \<Rightarrow>
          if confidence_rank conf > confidence_rank (confidence existing) \<or>
             (conf = confidence existing \<and> rule_priority r \<ge> priority existing)
          then existing\<lparr>page := item_page item, confidence := conf,
                 text_snippet := take 100 (item_text item), pattern_matched := pattern\<rparr>
          else existing)"

text \<open>
  What \<open>apply_rule\<close> does to the entry under the label of the rule, and the entry
  under that label after a whole sequence of fragments.
\<close>

definition entry_step ::
  "rule \<Rightarrow> fragment \<Rightarrow> identified_section option \<Rightarrow> identified_section option" where
  "entry_step r item e =
     (case find (\<lambda>p. str_in p (upper (item_text item))) (patterns r) of
        None \<Rightarrow> e
      | Some pattern \<Rightarrow>
          Some (merge_entry item r pattern
                  (determine_confidence (patterns r) (upper (item_text item)) pattern) e))"

definition entry_of :: "rule \<Rightarrow> fragment list \<Rightarrow> identified_section option" where
  "entry_of r text_content = fold (entry_step r) text_content None"

text \<open>The facts about an entry that every step keeps.\<close>

definition entry_ok :: "rule \<Rightarrow> identified_section \<Rightarrow> bool" where
  "entry_ok r v = (section_type v = label r \<and> priority v = rule_priority r \<and> confidence v \<noteq> Low)"

section \<open>The classifier on dicts that may lack a key\<close>

text \<open>
  \<^verbatim>\<open>item["text"]\<close> and \<^verbatim>\<open>item["page"]\<close> raise \<^verbatim>\<open>KeyError\<close> when the dict has no such
  key; with a string under \<^verbatim>\<open>"text"\<close> and an integer under \<^verbatim>\<open>"page"\<close> nothing else in the
  function can raise. A dict of the input is read here with both keys optional (the key
  \<^verbatim>\<open>"method"\<close> is never read), and the loop returns the error of the first dict that lacks a
  key, as the exception leaves the function.
\<close>

datatype error = KeyError string

record raw_item =
  raw_text :: "string option"
  raw_page :: "int option"
  raw_method :: string

fun checked_items :: "rule list \<Rightarrow> raw_item list \<Rightarrow> found \<Rightarrow> error + found" where
  "checked_items rules [] fs = Inr fs"
| "checked_items rules (item # rest) fs =
     (case raw_text item of
        None \<Rightarrow> Inl (KeyError ''text'')
      | Some t \<Rightarrow>
          (case raw_page item of
             None \<Rightarrow> Inl (KeyError ''page'')
           | Some pg \<Rightarrow>
               checked_items rules rest
                 (analyze_item rules
                    \<lparr>item_text = t, item_page = pg, item_method = raw_method item\<rparr> fs)))"

definition analyze_dicts :: "raw_item list \<Rightarrow> error + identified_section list" where
  "analyze_dicts text_content =
     (case checked_items section_rules text_content [] of
        Inl e \<Rightarrow> Inl e
      | Inr fs \<Rightarrow> Inr (sort_key section_key (map snd fs)))"

text \<open>A well-formed dict has both keys; it is then the fragment \<open>as_fragment\<close>.\<close>

definition well_formed :: "raw_item \<Rightarrow> bool" where
  "well_formed item = (raw_text item \<noteq> None \<and> raw_page item \<noteq> None)"

definition as_fragment :: "raw_item \<Rightarrow> fragment" where
  "as_fragment item =
     \<lparr>item_text = the (raw_text item), item_page = the (raw_page item),
      item_method = raw_method item\<rparr>"

section \<open>What a reordering of the input keeps\<close>

text \<open>
  The part of an entry that does not depend on the order of the fragments: its confidence
  and priority. \<open>tier_step\<close> is \<open>entry_step\<close> read on that part; \<open>better\<close> is the
  confidence that \<open>keep_best\<close> leaves.
\<close>

definition tier_of :: "identified_section \<Rightarrow> confidence_tier \<times> int" where
  "tier_of x = (confidence x, priority x)"

definition better :: "confidence_tier \<Rightarrow> confidence_tier \<Rightarrow> confidence_tier" where
  "better c ec = (if confidence_rank c > confidence_rank ec then c else ec)"

definition tier_step ::
  "rule \<Rightarrow> fragment \<Rightarrow> (confidence_tier \<times> int) option \<Rightarrow> (confidence_tier \<times> int) option" where
  "tier_step r item q =
     (case find (\<lambda>p. str_in p (upper (item_text item))) (patterns r) of
        None \<Rightarrow> q
      | Some pattern \<Rightarrow>
          Some (case q of
                  None \<Rightarrow>
                    (determine_confidence (patterns r) (upper (item_text item)) pattern,
                     rule_priority r)
                | Some (ec, ep) \<Rightarrow>
                    (better
                       (determine_confidence (patterns r) (upper (item_text item)) pattern) ec,
                     ep)))"

definition summary :: "identified_section \<Rightarrow> string \<times> confidence_tier \<times> int" where
  "summary x = (section_type x, confidence x, priority x)"

text \<open>
  The part of an entry that exchanging two neighbouring fragments of one page keeps: page,
  confidence and priority. \<open>place_step\<close> is \<open>entry_step\<close> read on that part.
\<close>

definition place_of :: "identified_section \<Rightarrow> int \<times> confidence_tier \<times> int" where
  "place_of x = (page x, confidence x, priority x)"

definition place_merge ::
  "int \<Rightarrow> confidence_tier \<Rightarrow> int \<Rightarrow> (int \<times> confidence_tier \<times> int) option
     \<Rightarrow> int \<times> confidence_tier \<times> int" where
  "place_merge p c n q =
     (case q of
        None \<Rightarrow> (p, c, n)
      | Some (pg, ec, ep) \<Rightarrow>
          if confidence_rank c > confidence_rank ec \<or> (c = ec \<and> n \<ge> ep)
          then (p, c, ep) else (pg, ec, ep))"

definition place_step ::
  "rule \<Rightarrow> fragment \<Rightarrow> (int \<times> confidence_tier \<times> int) option
     \<Rightarrow> (int \<times> confidence_tier \<times> int) option" where
  "place_step r item q =
     (case find (\<lambda>p. str_in p (upper (item_text item))) (patterns r) of
        None \<Rightarrow> q
      | Some pattern \<Rightarrow>
          Some (place_merge (item_page item)
                  (determine_confidence (patterns r) (upper (item_text item)) pattern)
                  (rule_priority r) q))"

definition located :: "identified_section \<Rightarrow> string \<times> int \<times> confidence_tier \<times> int" where
  "located x = (section_type x, page x, confidence x, priority x)"

definition located_key :: "string \<times> int \<times> confidence_tier \<times> int \<Rightarrow> int \<times> int \<times> string" where
  "located_key t = (case t of (l, pg, c, pr) \<Rightarrow> (- pr, pg, l))"

text \<open>
  \<open>same_page_reorder s s'\<close>: \<open>s'\<close> is reached from \<open>s\<close> by exchanging, any number of times,
  two neighbouring fragments that have the same page number.
\<close>

inductive same_page_reorder :: "fragment list \<Rightarrow> fragment list \<Rightarrow> bool" where
  same: "same_page_reorder s s"
| swap: "item_page a = item_page b \<Longrightarrow> same_page_reorder (xs @ a # b # ys) (xs @ b # a # ys)"
| trans: "same_page_reorder s t \<Longrightarrow> same_page_reorder t u \<Longrightarrow> same_page_reorder s u"

code_pred same_page_reorder .

section \<open>Sample inputs\<close>

abbreviation affidavit_line :: fragment where
  "affidavit_line \<equiv> \<lparr>item_text = ''AFFIDAVIT'', item_page = 2, item_method = ''pdfplumber''\<rparr>"

abbreviation sworn_line :: fragment where
  "sworn_line \<equiv> \<lparr>item_text = ''SWORN STATEMENT'', item_page = 4, item_method = ''pdfplumber''\<rparr>"

abbreviation affidavit_rule :: rule where
  "affidavit_rule \<equiv> mk_rule [''AFFIDAVIT'', ''SWORN STATEMENT''] ''Affidavit'' 5"

abbreviation affidavit_section :: identified_section where
  "affidavit_section \<equiv>
     \<lparr>section_type = ''Affidavit'', page = 2, confidence = High, text_snippet = ''AFFIDAVIT'',
      priority = 5, pattern_matched = ''AFFIDAVIT''\<rparr>"

abbreviation sworn_section :: identified_section where
  "sworn_section \<equiv>
     \<lparr>section_type = ''Affidavit'', page = 4, confidence = High,
      text_snippet = ''SWORN STATEMENT'', priority = 5, pattern_matched = ''SWORN STATEMENT''\<rparr>"

abbreviation long_line :: fragment where
  "long_line \<equiv>
     \<lparr>item_text = ''AFFIDAVIT a b c d e f g h i j'', item_page = 2, item_method = ''pdfplumber''\<rparr>"

abbreviation sworn_first :: fragment where
  "sworn_first \<equiv> \<lparr>item_text = ''SWORN STATEMENT'', item_page = 2, item_method = ''pdfplumber''\<rparr>"

abbreviation affidavit_later :: fragment where
  "affidavit_later \<equiv> \<lparr>item_text = ''AFFIDAVIT'', item_page = 3, item_method = ''pdfplumber''\<rparr>"

section \<open>Lookup in the dict after each step\<close>

lemma map_of_keep_best:
  "map_of (keep_best item r p c fs) = (map_of fs)(label r \<mapsto> merge_entry item r p c (map_of fs (label r)))"
  by (auto simp: keep_best_def merge_entry_def update_conv' fun_upd_idem_iff split: option.splits)

lemma map_of_apply_rule:
  "map_of (apply_rule item r fs) = (map_of fs)(label r := entry_step r item (map_of fs (label r)))"
  by (simp add: apply_rule_def entry_step_def map_of_keep_best split: option.splits)

lemma distinct_keep_best:
  "distinct (map fst fs) \<Longrightarrow> distinct (map fst (keep_best item r p c fs))"
  by (simp add: keep_best_def distinct_update split: option.splits)

lemma distinct_apply_rule:
  "distinct (map fst fs) \<Longrightarrow> distinct (map fst (apply_rule item r fs))"
  by (simp add: apply_rule_def distinct_keep_best split: option.splits)

lemma distinct_analyze_item:
  "distinct (map fst fs) \<Longrightarrow> distinct (map fst (analyze_item rules item fs))"
  unfolding analyze_item_def
  by (induction rules arbitrary: fs) (simp_all add: distinct_apply_rule)

lemma distinct_fold_items:
  "distinct (map fst fs) \<Longrightarrow> distinct (map fst (fold (analyze_item rules) tc fs))"
  by (induction tc arbitrary: fs) (simp_all add: distinct_analyze_item)

lemma distinct_find_sections: "distinct (map fst (find_sections rules tc))"
  by (simp add: find_sections_def distinct_fold_items)

lemma analyze_item_other:
  "L \<notin> label ` set rules \<Longrightarrow> map_of (analyze_item rules item fs) L = map_of fs L"
  unfolding analyze_item_def
  by (induction rules arbitrary: fs) (auto simp: map_of_apply_rule)

lemma analyze_item_label:
  "distinct (map label rules) \<Longrightarrow> r \<in> set rules \<Longrightarrow>
   map_of (analyze_item rules item fs) (label r) = entry_step r item (map_of fs (label r))"
proof (induction rules arbitrary: fs)
  case Nil
  then show ?case by simp
next
  case (Cons a rules)
  show ?case
  proof (cases "r = a")
    case True
    from Cons.prems have "label a \<notin> label ` set rules" by simp
    then have "map_of (analyze_item rules item (apply_rule item a fs)) (label a)
               = map_of (apply_rule item a fs) (label a)"
      by (rule analyze_item_other)
    then show ?thesis using True by (simp add: analyze_item_def map_of_apply_rule)
  next
    case False
    with Cons.prems have r: "r \<in> set rules" and d: "distinct (map label rules)"
      and ne: "label a \<noteq> label r" by auto
    have "map_of (analyze_item rules item (apply_rule item a fs)) (label r)
          = entry_step r item (map_of (apply_rule item a fs) (label r))"
      using Cons.IH [OF d r] .
    then show ?thesis using ne by (simp add: analyze_item_def map_of_apply_rule)
  qed
qed

lemma find_sections_snoc:
  "find_sections rules (tc @ [f]) = analyze_item rules f (find_sections rules tc)"
  by (simp add: find_sections_def)

lemma find_sections_other:
  "L \<notin> label ` set rules \<Longrightarrow> map_of (find_sections rules tc) L = None"
  by (induction tc rule: rev_induct) (simp_all add: find_sections_snoc analyze_item_other, simp add: find_sections_def)

lemma find_sections_label:
  "distinct (map label rules) \<Longrightarrow> r \<in> set rules \<Longrightarrow>
   map_of (find_sections rules tc) (label r) = entry_of r tc"
  by (induction tc rule: rev_induct)
     (simp_all add: find_sections_snoc analyze_item_label entry_of_def, simp add: find_sections_def)

section \<open>The records of the result\<close>

lemma distinct_labels: "distinct (map label section_rules)"
  by (simp add: section_rules_def mk_rule_def)

lemma determine_confidence_not_Low: "determine_confidence ps t p \<noteq> Low"
  by (simp add: determine_confidence_def)

lemma entry_step_ok:
  assumes "entry_step r item e = Some v" and "\<And>w. e = Some w \<Longrightarrow> entry_ok r w"
  shows "entry_ok r v"
  using assms
  by (auto simp: entry_step_def merge_entry_def entry_ok_def determine_confidence_not_Low
      split: option.splits if_splits)

lemma entry_of_snoc: "entry_of r (tc @ [f]) = entry_step r f (entry_of r tc)"
  by (simp add: entry_of_def)

lemma entry_of_ok: "entry_of r tc = Some v \<Longrightarrow> entry_ok r v"
proof (induction tc arbitrary: v rule: rev_induct)
  case Nil
  then show ?case by (simp add: entry_of_def)
next
  case (snoc f tc)
  then show ?case by (auto simp: entry_of_snoc intro: entry_step_ok)
qed

lemma in_find_sections_iff:
  assumes "distinct (map label rules)"
  shows "(k, v) \<in> set (find_sections rules tc) \<longleftrightarrow> (\<exists>r\<in>set rules. label r = k \<and> entry_of r tc = Some v)"
proof -
  have "(k, v) \<in> set (find_sections rules tc) \<longleftrightarrow> map_of (find_sections rules tc) k = Some v"
    using distinct_find_sections by simp
  also have "\<dots> \<longleftrightarrow> (\<exists>r\<in>set rules. label r = k \<and> entry_of r tc = Some v)"
  proof (cases "k \<in> label ` set rules")
    case True
    then obtain x where x: "x \<in> set rules" and kx: "label x = k" by auto
    have lk: "map_of (find_sections rules tc) k = entry_of x tc"
      using find_sections_label [OF assms x, of tc] unfolding kx .
    have same: "entry_of r tc = entry_of x tc" if r: "r \<in> set rules" and kr: "label r = k" for r
    proof -
      have "map_of (find_sections rules tc) k = entry_of r tc"
        using find_sections_label [OF assms r, of tc] unfolding kr .
      with lk show ?thesis by simp
    qed
    show ?thesis
    proof
      assume "map_of (find_sections rules tc) k = Some v"
      with lk have "entry_of x tc = Some v" by simp
      with x kx show "\<exists>r\<in>set rules. label r = k \<and> entry_of r tc = Some v" by blast
    next
      assume "\<exists>r\<in>set rules. label r = k \<and> entry_of r tc = Some v"
      then obtain r where "r \<in> set rules" "label r = k" "entry_of r tc = Some v" by blast
      with same [of r] lk show "map_of (find_sections rules tc) k = Some v" by simp
    qed
  next
    case False
    then show ?thesis using find_sections_other [of k rules tc] by auto
  qed
  finally show ?thesis .
qed

lemma in_analyze_with_iff:
  assumes "distinct (map label rules)"
  shows "x \<in> set (analyze_with rules tc) \<longleftrightarrow> (\<exists>r\<in>set rules. entry_of r tc = Some x)"
proof -
  have "x \<in> set (analyze_with rules tc) \<longleftrightarrow> (\<exists>k. (k, x) \<in> set (find_sections rules tc))"
    by (force simp: analyze_with_def)
  then show ?thesis using in_find_sections_iff [OF assms] by auto
qed

lemma keys_find_sections:
  assumes "distinct (map label rules)"
  shows "map section_type (map snd (find_sections rules tc)) = map fst (find_sections rules tc)"
proof -
  have "section_type v = k" if "(k, v) \<in> set (find_sections rules tc)" for k v
    using that in_find_sections_iff [OF assms] entry_of_ok by (auto simp: entry_ok_def)
  then show ?thesis by auto
qed

lemma distinct_types_find_sections:
  assumes "distinct (map label rules)"
  shows "distinct (map section_type (map snd (find_sections rules tc)))"
  unfolding keys_find_sections [OF assms] by (rule distinct_find_sections)

lemma distinct_map_sort_key:
  "distinct (map g (sort_key f xs)) = distinct (map g xs)"
proof -
  have "mset (map g (sort_key f xs)) = mset (map g xs)" by simp
  then show ?thesis by (rule mset_eq_imp_distinct_iff)
qed

lemma distinct_types_analyze_with:
  assumes "distinct (map label rules)"
  shows "distinct (map section_type (analyze_with rules tc))"
  unfolding analyze_with_def distinct_map_sort_key
  using distinct_types_find_sections [OF assms] .

section \<open>Strings\<close>

lemma starts_with_iff: "starts_with p t \<longleftrightarrow> (\<exists>b. t = p @ b)"
  by (induction p t rule: starts_with.induct) auto

lemma str_in_iff: "str_in p t \<longleftrightarrow> (\<exists>a b. t = a @ p @ b)"
proof (induction t)
  case Nil
  then show ?case by auto
next
  case (Cons c t)
  show ?case
  proof
    assume "str_in p (c # t)"
    then consider "starts_with p (c # t)" | "str_in p t" by auto
    then show "\<exists>a b. c # t = a @ p @ b"
    proof cases
      case 1
      then obtain b where "c # t = p @ b" using starts_with_iff by blast
      then have "c # t = [] @ p @ b" by simp
      then show ?thesis by blast
    next
      case 2
      then obtain a b where "t = a @ p @ b" using Cons.IH by blast
      then have "c # t = (c # a) @ p @ b" by simp
      then show ?thesis by blast
    qed
  next
    assume "\<exists>a b. c # t = a @ p @ b"
    then obtain a b where ab: "c # t = a @ p @ b" by blast
    show "str_in p (c # t)"
    proof (cases a)
      case Nil
      with ab have "starts_with p (c # t)" using starts_with_iff by auto
      then show ?thesis by simp
    next
      case (Cons a0 a')
      with ab have "t = a' @ p @ b" by simp
      then have "str_in p t" using Cons.IH by blast
      then show ?thesis by simp
    qed
  qed
qed




section \<open>Order, priorities and confidence of the result\<close>

lemma sorted_analyze_with: "sorted (map section_key (analyze_with rules tc))"
  by (simp add: analyze_with_def)

lemma key_le_cases:
  "section_key a \<le> section_key b \<Longrightarrow>
     priority a > priority b \<or> (priority a = priority b \<and> page a \<le> page b) \<or>
     (priority a = priority b \<and> page a = page b \<and> section_type a \<le> section_type b)"
  by (auto simp: section_key_def less_eq_prod_def)

lemma entry_of_rule:
  assumes "distinct (map label rules)" and "x \<in> set (analyze_with rules tc)"
  shows "\<exists>r\<in>set rules. entry_of r tc = Some x \<and> entry_ok r x"
  using assms in_analyze_with_iff entry_of_ok by blast


lemma entry_step_grows:
  "\<exists>y. entry_step r f (Some x) = Some y \<and> section_type y = section_type x \<and>
       confidence_rank (confidence x) \<le> confidence_rank (confidence y)"
  by (auto simp: entry_step_def merge_entry_def split: option.splits)

section \<open>The order of the catalog\<close>

lemma map_of_find_sections_perm:
  assumes d: "distinct (map label rules)" and d': "distinct (map label rules')"
    and eq: "set rules' = set rules"
  shows "map_of (find_sections rules' tc) = map_of (find_sections rules tc)"
proof
  fix L
  show "map_of (find_sections rules' tc) L = map_of (find_sections rules tc) L"
  proof (cases "L \<in> label ` set rules")
    case True
    then obtain r where r: "r \<in> set rules" and L: "label r = L" by auto
    from r eq have r': "r \<in> set rules'" by simp
    show ?thesis
      using find_sections_label [OF d r, of tc] find_sections_label [OF d' r', of tc]
      unfolding L by simp
  next
    case False
    then have "L \<notin> label ` set rules'" using eq by simp
    with False show ?thesis by (simp add: find_sections_other)
  qed
qed

lemma inj_on_section_key:
  assumes "distinct (map section_type xs)"
  shows "inj_on section_key (set xs)"
proof (rule inj_onI)
  fix x y assume "x \<in> set xs" "y \<in> set xs" "section_key x = section_key y"
  then have "section_type x = section_type y" by (simp add: section_key_def)
  with assms \<open>x \<in> set xs\<close> \<open>y \<in> set xs\<close> show "x = y"
    by (auto simp: distinct_map dest: inj_onD)
qed

lemma sort_values_unique:
  assumes "mset xs = mset ys" and "distinct (map section_type xs)"
  shows "sort_key section_key xs = sort_key section_key ys"
proof (rule sort_key_inj_key_eq)
  show "mset xs = mset (sort_key section_key ys)" using assms(1) by simp
  show "inj_on section_key (set xs)" using assms(2) by (rule inj_on_section_key)
  show "sorted (map section_key (sort_key section_key ys))" by simp
qed

lemma analyze_with_perm:
  assumes d: "distinct (map label rules)" and eq: "mset rules' = mset rules"
  shows "analyze_with rules' tc = analyze_with rules tc"
proof -
  have "mset (map label rules') = mset (map label rules)" using eq by simp
  then have d': "distinct (map label rules')" using d mset_eq_imp_distinct_iff by blast
  have seteq: "set rules' = set rules" using eq by (rule mset_eq_setD)
  have "map_of (find_sections rules' tc) = map_of (find_sections rules tc)"
    using d d' seteq by (rule map_of_find_sections_perm)
  then have "set (find_sections rules' tc) = set (find_sections rules tc)"
    using map_of_inject_set [OF distinct_find_sections distinct_find_sections] by blast
  moreover have "distinct (find_sections rules' tc)" "distinct (find_sections rules tc)"
    using distinct_find_sections distinct_map by blast+
  ultimately have "mset (find_sections rules' tc) = mset (find_sections rules tc)"
    using set_eq_iff_mset_eq_distinct by blast
  then have "mset (map snd (find_sections rules' tc)) = mset (map snd (find_sections rules tc))"
    by (metis mset_map)
  then show ?thesis
    unfolding analyze_with_def
    using distinct_types_find_sections [OF d'] by (rule sort_values_unique)
qed

section \<open>Dicts with missing keys\<close>

lemma checked_items_well_formed:
  "list_all well_formed items \<Longrightarrow>
   checked_items rules items fs = Inr (fold (analyze_item rules) (map as_fragment items) fs)"
  by (induction items arbitrary: fs) (auto simp: well_formed_def as_fragment_def)

lemma checked_items_malformed:
  "\<not> list_all well_formed items \<Longrightarrow> \<exists>e. checked_items rules items fs = Inl e"
  by (induction items arbitrary: fs) (auto simp: well_formed_def split: option.splits)

section \<open>Reordering the fragments\<close>

lemma tier_of_entry_step:
  "map_option tier_of (entry_step r item e) = tier_step r item (map_option tier_of e)"
  by (cases e) (auto simp: entry_step_def tier_step_def merge_entry_def tier_of_def better_def
      split: option.splits)

lemma better_commute: "better a b = better b a"
  by (cases a; cases b) (simp_all add: better_def)

lemma better_left_commute: "better a (better b c) = better b (better a c)"
  by (cases a; cases b; cases c) (simp_all add: better_def)

lemma tier_step_commute: "tier_step r a (tier_step r b q) = tier_step r b (tier_step r a q)"
  by (cases q) (auto simp: tier_step_def better_left_commute better_commute split: option.splits)

lemma tier_of_fold:
  "map_option tier_of (fold (entry_step r) tc e) = fold (tier_step r) tc (map_option tier_of e)"
  by (induction tc arbitrary: e) (simp_all add: tier_of_entry_step)

lemma tier_of_entry_of_perm:
  assumes "mset s' = mset s"
  shows "map_option tier_of (entry_of r s') = map_option tier_of (entry_of r s)"
proof -
  have "fold (tier_step r) s' = fold (tier_step r) s"
    by (rule fold_multiset_equiv) (auto simp: fun_eq_iff tier_step_commute assms)
  then show ?thesis by (simp add: entry_of_def tier_of_fold)
qed

lemma summary_subset_perm:
  assumes "mset s' = mset s"
  shows "summary ` set (analyze_mortgage_sections s) \<subseteq> summary ` set (analyze_mortgage_sections s')"
proof
  fix t assume "t \<in> summary ` set (analyze_mortgage_sections s)"
  then obtain x where x: "x \<in> set (analyze_mortgage_sections s)" and t: "t = summary x" by blast
  from x obtain r where r: "r \<in> set section_rules" and e: "entry_of r s = Some x"
    unfolding analyze_mortgage_sections_def in_analyze_with_iff [OF distinct_labels] by blast
  from tier_of_entry_of_perm [OF assms, of r] e
  obtain y where y: "entry_of r s' = Some y" and ty: "tier_of y = tier_of x" by auto
  have "section_type y = section_type x"
    using entry_of_ok [OF y] entry_of_ok [OF e] by (simp add: entry_ok_def)
  with ty have "summary y = summary x" by (simp add: summary_def tier_of_def)
  moreover have "y \<in> set (analyze_mortgage_sections s')"
    unfolding analyze_mortgage_sections_def in_analyze_with_iff [OF distinct_labels]
    using r y by blast
  ultimately show "t \<in> summary ` set (analyze_mortgage_sections s')"
    unfolding t by (metis imageI)
qed

lemma place_of_entry_step:
  "map_option place_of (entry_step r item e) = place_step r item (map_option place_of e)"
  by (cases e) (auto simp: entry_step_def place_step_def place_merge_def merge_entry_def
      place_of_def split: option.splits)

lemma place_merge_commute:
  "place_merge p ca n (Some (place_merge p cb n q)) =
   place_merge p cb n (Some (place_merge p ca n q))"
proof (cases q)
  case None
  then show ?thesis by (cases ca; cases cb) (simp_all add: place_merge_def)
next
  case (Some t)
  obtain pg ec ep where "t = (pg, ec, ep)" by (cases t)
  with Some show ?thesis by (cases ca; cases cb; cases ec) (simp_all add: place_merge_def)
qed

lemma place_step_commute:
  assumes "item_page a = item_page b"
  shows "place_step r a (place_step r b q) = place_step r b (place_step r a q)"
  using place_merge_commute [of "item_page b" _ "rule_priority r" _ q]
  by (simp add: place_step_def assms split: option.splits)

lemma place_of_fold:
  "map_option place_of (fold (entry_step r) tc e) = fold (place_step r) tc (map_option place_of e)"
  by (induction tc arbitrary: e) (simp_all add: place_of_entry_step)

lemma fold_place_reorder:
  "same_page_reorder s s' \<Longrightarrow> fold (place_step r) s' q = fold (place_step r) s q"
proof (induction rule: same_page_reorder.induct)
  case (same s)
  show ?case by simp
next
  case (swap a b xs ys)
  then show ?case by (simp add: place_step_commute)
next
  case (trans s t u)
  then show ?case by simp
qed

lemma place_of_entry_of_reorder:
  "same_page_reorder s s' \<Longrightarrow>
   map_option place_of (entry_of r s') = map_option place_of (entry_of r s)"
  by (simp add: entry_of_def place_of_fold fold_place_reorder)

lemma located_entry_of_reorder:
  assumes "same_page_reorder s s'"
  shows "map_option located (entry_of r s') = map_option located (entry_of r s)"
proof -
  have l: "located x = (label r, place_of x)" if "entry_of r u = Some x" for u x
    using entry_of_ok [OF that] by (simp add: located_def place_of_def entry_ok_def)
  show ?thesis
    using place_of_entry_of_reorder [OF assms, of r] l [of s] l [of s']
    by (cases "entry_of r s"; cases "entry_of r s'") auto
qed

lemma located_values:
  assumes "distinct (map label rules)"
  shows "located ` snd ` set (find_sections rules tc) =
         {t. \<exists>r\<in>set rules. map_option located (entry_of r tc) = Some t}"
proof (intro set_eqI iffI)
  fix t assume "t \<in> located ` snd ` set (find_sections rules tc)"
  then obtain k v where kv: "(k, v) \<in> set (find_sections rules tc)" and t: "t = located v"
    by force
  from kv obtain r where "r \<in> set rules" "entry_of r tc = Some v"
    using in_find_sections_iff [OF assms] by blast
  with t show "t \<in> {t. \<exists>r\<in>set rules. map_option located (entry_of r tc) = Some t}"
    by force
next
  fix t assume "t \<in> {t. \<exists>r\<in>set rules. map_option located (entry_of r tc) = Some t}"
  then obtain r v where r: "r \<in> set rules" and v: "entry_of r tc = Some v" and t: "t = located v"
    by auto
  from r v have "(label r, v) \<in> set (find_sections rules tc)"
    using in_find_sections_iff [OF assms] by blast
  then have "v \<in> snd ` set (find_sections rules tc)" by force
  with t show "t \<in> located ` snd ` set (find_sections rules tc)" by blast
qed

lemma distinct_located:
  assumes "distinct (map section_type xs)"
  shows "distinct (map located xs)"
proof -
  have "inj_on located (set xs)"
  proof (rule inj_onI)
    fix x y assume "x \<in> set xs" "y \<in> set xs" "located x = located y"
    then have "section_type x = section_type y" by (simp add: located_def)
    with assms \<open>x \<in> set xs\<close> \<open>y \<in> set xs\<close> show "x = y"
      by (auto simp: distinct_map dest: inj_onD)
  qed
  moreover have "distinct xs" using assms by (simp add: distinct_map)
  ultimately show ?thesis by (simp add: distinct_map)
qed

lemma located_key_located: "located_key (located x) = section_key x"
  by (simp add: located_key_def located_def section_key_def)

lemma inj_on_located_key:
  assumes "distinct (map section_type xs)"
  shows "inj_on located_key (located ` set xs)"
proof (rule inj_onI)
  fix t u assume "t \<in> located ` set xs" "u \<in> located ` set xs" "located_key t = located_key u"
  then obtain x y where x: "x \<in> set xs" "t = located x" and y: "y \<in> set xs" "u = located y"
    by blast
  with \<open>located_key t = located_key u\<close> have "section_key x = section_key y"
    by (simp add: located_key_located)
  with inj_on_section_key [OF assms] x y show "t = u" by (auto dest: inj_onD)
qed

lemma map_located_sort:
  assumes "distinct (map section_type xs)"
  shows "map located (sort_key section_key xs) = sort_key located_key (map located xs)"
proof (rule sym, rule sort_key_inj_key_eq)
  show "mset (map located xs) = mset (map located (sort_key section_key xs))" by simp
  show "inj_on located_key (set (map located xs))"
    using inj_on_located_key [OF assms] by simp
  have "map located_key (map located (sort_key section_key xs))
        = map section_key (sort_key section_key xs)"
    by (simp add: located_key_located)
  then show "sorted (map located_key (map located (sort_key section_key xs)))"
    by (simp only: sorted_sort_key)
qed

lemma located_analyze_reorder:
  assumes d: "distinct (map label rules)" and re: "same_page_reorder s s'"
  shows "map located (analyze_with rules s') = map located (analyze_with rules s)"
proof -
  let ?v = "map snd (find_sections rules s)" and ?v' = "map snd (find_sections rules s')"
  have dv: "distinct (map section_type ?v)" "distinct (map section_type ?v')"
    using distinct_types_find_sections [OF d] by blast+
  have "set (map located ?v') = set (map located ?v)"
    using located_values [OF d, of s'] located_values [OF d, of s]
      located_entry_of_reorder [OF re] by (simp add: image_image)
  moreover have "distinct (map located ?v')" "distinct (map located ?v)"
    using dv by (blast intro: distinct_located)+
  ultimately have m: "mset (map located ?v') = mset (map located ?v)"
    using set_eq_iff_mset_eq_distinct by blast
  have "sort_key located_key (map located ?v')
        = sort_key located_key (map located ?v)"
  proof (rule sort_key_inj_key_eq)
    show "mset (map located ?v') = mset (sort_key located_key (map located ?v))"
      using m by simp
    show "inj_on located_key (set (map located ?v'))"
      using inj_on_located_key [OF dv(2)] by (simp add: image_image)
    show "sorted (map located_key (sort_key located_key (map located ?v)))" by simp
  qed
  then show ?thesis
    unfolding analyze_with_def map_located_sort [OF dv(1)] map_located_sort [OF dv(2)] .
qed

section \<open>Runs on the sample inputs\<close>

lemma run_affidavit: "analyze_mortgage_sections [affidavit_line] = [affidavit_section]"
  by code_simp

lemma run_affidavit_sworn:
  "analyze_mortgage_sections [affidavit_line, sworn_line] = [sworn_section]"
  by code_simp

lemma found_affidavit:
  "map_of (find_sections section_rules [affidavit_line]) ''Affidavit'' = Some affidavit_section"
  by code_simp

lemma sworn_matches:
  "find (\<lambda>p. str_in p (upper ''SWORN STATEMENT'')) [''AFFIDAVIT'', ''SWORN STATEMENT'']
     = Some ''SWORN STATEMENT''"
  by code_simp

lemma sworn_confidence:
  "determine_confidence [''AFFIDAVIT'', ''SWORN STATEMENT''] (upper ''SWORN STATEMENT'')
     ''SWORN STATEMENT'' = High"
  by code_simp

lemma affidavit_rule_in_catalog: "affidavit_rule \<in> set section_rules"
  by (simp add: section_rules_def)

lemma run_forward:
  "analyze_mortgage_sections [sworn_first, affidavit_later, long_line] =
     [\<lparr>section_type = ''Affidavit'', page = 3, confidence = High, text_snippet = ''AFFIDAVIT'',
       priority = 5, pattern_matched = ''AFFIDAVIT''\<rparr>]"
  by code_simp

lemma run_backward:
  "analyze_mortgage_sections [long_line, affidavit_later, sworn_first] =
     [\<lparr>section_type = ''Affidavit'', page = 2, confidence = High,
       text_snippet = ''SWORN STATEMENT'', priority = 5,
       pattern_matched = ''SWORN STATEMENT''\<rparr>]"
  by code_simp

lemma run_same_page:
  "analyze_mortgage_sections [affidavit_line, sworn_first] =
     [\<lparr>section_type = ''Affidavit'', page = 2, confidence = High,
       text_snippet = ''SWORN STATEMENT'', priority = 5,
       pattern_matched = ''SWORN STATEMENT''\<rparr>]"
  by code_simp

lemma run_same_page_exchanged:
  "analyze_mortgage_sections [sworn_first, affidavit_line] = [affidavit_section]"
  by code_simp

lemma neighbours_exchanged:
  "same_page_reorder [affidavit_line, sworn_first] [sworn_first, affidavit_line]"
  using same_page_reorder.swap [of affidavit_line sworn_first "[]" "[]"] by simp

section \<open>The claims\<close>

text \<open>
  Claim C1. For every sequence of fragments, no two records of the result have the same
  \<open>section_type\<close>: the result holds at most one record per label of the catalog.
\<close>

theorem C1_unique_section_type:
  "distinct (map section_type (analyze_mortgage_sections text_content))"
  unfolding analyze_mortgage_sections_def
  by (rule distinct_types_analyze_with [OF distinct_labels])

text \<open>
  Claim C2. Let the fragment \<open>f\<close> be processed after the fragments \<open>s\<close>, let \<open>p\<close> be the
  first pattern of the catalog rule \<open>r\<close> contained in the uppercased text of \<open>f\<close>, and let
  the dict already hold the entry \<open>e\<close> under the label of \<open>r\<close>. Then the entry under that
  label afterwards is \<open>e\<close> with page, confidence, snippet and pattern rewritten from \<open>f\<close>
  exactly when the new confidence ranks strictly higher, or the confidences are equal and
  the priority of the rule is at least the priority of \<open>e\<close>; otherwise it is \<open>e\<close>
  unchanged. Consequently, when confidence and priority are both equal, the result holds a
  record for the label whose page, snippet and pattern are those of \<open>f\<close>, the fragment
  processed last.
\<close>

theorem C2_replacement_rule:
  assumes r: "r \<in> set section_rules"
    and p: "find (\<lambda>p. str_in p (upper (item_text f))) (patterns r) = Some p"
    and e: "map_of (find_sections section_rules s) (label r) = Some e"
  shows "map_of (find_sections section_rules (s @ [f])) (label r) =
      Some (if confidence_rank (determine_confidence (patterns r) (upper (item_text f)) p)
                 > confidence_rank (confidence e) \<or>
               (determine_confidence (patterns r) (upper (item_text f)) p = confidence e \<and>
                rule_priority r \<ge> priority e)
            then e\<lparr>page := item_page f,
                   confidence := determine_confidence (patterns r) (upper (item_text f)) p,
                   text_snippet := take 100 (item_text f), pattern_matched := p\<rparr>
            else e) \<and>
    (determine_confidence (patterns r) (upper (item_text f)) p = confidence e \<and>
     rule_priority r = priority e \<longrightarrow>
       (\<exists>x\<in>set (analyze_mortgage_sections (s @ [f])).
          section_type x = label r \<and> page x = item_page f \<and>
          text_snippet x = take 100 (item_text f) \<and> pattern_matched x = p))"
proof -
  let ?c = "determine_confidence (patterns r) (upper (item_text f)) p"
  let ?new = "if confidence_rank ?c > confidence_rank (confidence e) \<or>
               (?c = confidence e \<and> rule_priority r \<ge> priority e)
            then e\<lparr>page := item_page f, confidence := ?c,
                   text_snippet := take 100 (item_text f), pattern_matched := p\<rparr>
            else e"
  have before: "entry_of r s = Some e"
    using find_sections_label [OF distinct_labels r, of s] e by simp
  have step: "entry_step r f (Some e) = Some ?new"
    using p by (simp add: entry_step_def merge_entry_def)
  have after: "entry_of r (s @ [f]) = Some ?new"
    using before step by (simp add: entry_of_snoc)
  have first: "map_of (find_sections section_rules (s @ [f])) (label r) = Some ?new"
    using find_sections_label [OF distinct_labels r, of "s @ [f]"] after by simp
  have ok: "entry_ok r e" using before by (rule entry_of_ok)
  have second: "\<exists>x\<in>set (analyze_mortgage_sections (s @ [f])).
          section_type x = label r \<and> page x = item_page f \<and>
          text_snippet x = take 100 (item_text f) \<and> pattern_matched x = p"
    if tie: "?c = confidence e \<and> rule_priority r = priority e"
  proof -
    from tie have new: "?new = e\<lparr>page := item_page f, confidence := ?c,
                   text_snippet := take 100 (item_text f), pattern_matched := p\<rparr>"
      by simp
    have "?new \<in> set (analyze_mortgage_sections (s @ [f]))"
      unfolding analyze_mortgage_sections_def in_analyze_with_iff [OF distinct_labels]
      using r after by blast
    moreover have "section_type ?new = label r \<and> page ?new = item_page f \<and>
          text_snippet ?new = take 100 (item_text f) \<and> pattern_matched ?new = p"
      unfolding new using ok by (simp add: entry_ok_def)
    ultimately show ?thesis by blast
  qed
  from first second show ?thesis by blast
qed

theorem C2_witness:
  "map_of (find_sections section_rules [affidavit_line, sworn_line]) ''Affidavit''
     = Some sworn_section \<and>
   (\<exists>x\<in>set (analyze_mortgage_sections [affidavit_line, sworn_line]).
      section_type x = ''Affidavit'' \<and> page x = 4 \<and> text_snippet x = ''SWORN STATEMENT'' \<and>
      pattern_matched x = ''SWORN STATEMENT'')"
proof -
  have p: "find (\<lambda>p. str_in p (upper (item_text sworn_line))) (patterns affidavit_rule)
             = Some ''SWORN STATEMENT''"
    using sworn_matches by (simp add: mk_rule_def)
  have e: "map_of (find_sections section_rules [affidavit_line]) (label affidavit_rule)
             = Some affidavit_section"
    using found_affidavit by (simp add: mk_rule_def)
  from C2_replacement_rule [OF affidavit_rule_in_catalog p e] sworn_confidence
  show ?thesis by (simp add: mk_rule_def)
qed



text \<open>
  Claim C4. The result is sorted by the key (minus priority, page, section type). Hence for
  every two adjacent records the first has strictly higher priority, or equal priority and
  a page less than or equal to the second's, or equal priority and page and a section type
  lexicographically less than or equal to the second's.
\<close>

theorem C4_output_order:
  "sorted (map section_key (analyze_mortgage_sections tc)) \<and>
  successively (\<lambda>a b. priority a > priority b \<or> (priority a = priority b \<and> page a \<le> page b) \<or>
     (priority a = priority b \<and> page a = page b \<and> section_type a \<le> section_type b))
    (analyze_mortgage_sections tc)"
proof -
  have s: "sorted (map section_key (analyze_mortgage_sections tc))"
    unfolding analyze_mortgage_sections_def by (rule sorted_analyze_with)
  then have "sorted_wrt (\<lambda>a b. section_key a \<le> section_key b) (analyze_mortgage_sections tc)"
    by (simp add: sorted_wrt_map)
  then have "successively (\<lambda>a b. section_key a \<le> section_key b) (analyze_mortgage_sections tc)"
    by (rule successively_if_sorted_wrt)
  then show ?thesis using s key_le_cases by (auto elim!: successively_mono)
qed

text \<open>
  Claim C5. The labels of the catalog are pairwise distinct, and every record of a result
  carries the priority that the catalog gives to the rule whose label is the record's
  \<open>section_type\<close>.
\<close>

theorem C5_priority_from_catalog:
  "distinct (map label section_rules) \<and>
  (\<forall>x\<in>set (analyze_mortgage_sections tc).
     \<exists>r\<in>set section_rules. label r = section_type x \<and> rule_priority r = priority x)"
  using entry_of_rule [OF distinct_labels] distinct_labels
  unfolding analyze_mortgage_sections_def entry_ok_def by fastforce

theorem C5_witness:
  "\<exists>r\<in>set section_rules. label r = ''Affidavit'' \<and> rule_priority r = 5"
  using C5_priority_from_catalog [of "[affidavit_line]"] by (simp add: run_affidavit)

text \<open>
  Claim C6. The order of the rules in the catalog does not affect the result: the
  classifier run with any permutation of the catalog returns the same sequence.
\<close>

theorem C6_catalog_order_irrelevant:
  "mset rules = mset section_rules \<Longrightarrow>
   analyze_with rules text_content = analyze_mortgage_sections text_content"
  unfolding analyze_mortgage_sections_def
  using distinct_labels by (rule analyze_with_perm)

theorem C6_witness:
  "analyze_with (rev section_rules) [affidavit_line] = analyze_mortgage_sections [affidavit_line]"
  using C6_catalog_order_irrelevant [of "rev section_rules" "[affidavit_line]"] by simp

text \<open>
  Claim C7, as amended. For every permutation of the fragments the results hold the same
  section types, each with the same confidence and priority. When the permutation only
  exchanges neighbouring fragments of the same page, the two result sequences moreover
  list the section types in the same order with the same pages. (As stated, with the whole
  records equal, the claim fails: snippet and pattern are those of the best match processed
  last, and so is the page when fragments of other pages lie in between.)
\<close>

theorem C7_reordering_keeps_tiers:
  "(mset s' = mset s \<longrightarrow>
      summary ` set (analyze_mortgage_sections s') = summary ` set (analyze_mortgage_sections s)) \<and>
   (same_page_reorder s s' \<longrightarrow>
      map located (analyze_mortgage_sections s') = map located (analyze_mortgage_sections s))"
proof (intro conjI impI)
  assume "mset s' = mset s"
  then show "summary ` set (analyze_mortgage_sections s') =
             summary ` set (analyze_mortgage_sections s)"
    using summary_subset_perm [of s' s] summary_subset_perm [of s s'] by auto
next
  assume "same_page_reorder s s'"
  then show "map located (analyze_mortgage_sections s') =
             map located (analyze_mortgage_sections s)"
    unfolding analyze_mortgage_sections_def
    by (rule located_analyze_reorder [OF distinct_labels])
qed

theorem C7_witness:
  "summary ` set (analyze_mortgage_sections [sworn_first, affidavit_line]) =
     summary ` set (analyze_mortgage_sections [affidavit_line, sworn_first]) \<and>
   map located (analyze_mortgage_sections [sworn_first, affidavit_line]) =
     map located (analyze_mortgage_sections [affidavit_line, sworn_first])"
proof -
  have m: "mset [sworn_first, affidavit_line] = mset [affidavit_line, sworn_first]"
    by (simp add: add_mset_commute)
  from C7_reordering_keeps_tiers [of "[sworn_first, affidavit_line]" "[affidavit_line, sworn_first]"]
    m neighbours_exchanged
  show ?thesis by blast
qed

text \<open>
  The claim C7 as stated fails. Exchanging the two neighbouring fragments of page 2 changes
  snippet and pattern of the record; and reversing three fragments whose first and last
  are on page 2, which moves no fragment to a position of another page, changes the page
  of the record as well.
\<close>

theorem C7_counterexample:
  "same_page_reorder [affidavit_line, sworn_first] [sworn_first, affidavit_line] \<and>
   set (analyze_mortgage_sections [sworn_first, affidavit_line]) \<noteq>
     set (analyze_mortgage_sections [affidavit_line, sworn_first]) \<and>
   mset [long_line, affidavit_later, sworn_first] = mset [sworn_first, affidavit_later, long_line] \<and>
   map item_page [long_line, affidavit_later, sworn_first] =
     map item_page [sworn_first, affidavit_later, long_line] \<and>
   set (analyze_mortgage_sections [long_line, affidavit_later, sworn_first]) \<noteq>
     set (analyze_mortgage_sections [sworn_first, affidavit_later, long_line])"
  unfolding run_forward run_backward run_same_page run_same_page_exchanged
  using neighbours_exchanged by (simp add: add_mset_commute)

text \<open>
  Claim C8. The classifier returns normally on every well-formed input: on the empty
  sequence the result is the empty sequence, and on dicts that all have the keys
  \<^verbatim>\<open>"text"\<close> and \<^verbatim>\<open>"page"\<close> no \<^verbatim>\<open>KeyError\<close> is raised and the result is that of the
  classifier on the fragments.
\<close>

theorem C8_total_on_well_formed:
  "analyze_mortgage_sections [] = [] \<and> analyze_dicts [] = Inr [] \<and>
   (list_all well_formed items \<longrightarrow>
      analyze_dicts items = Inr (analyze_mortgage_sections (map as_fragment items)))"
  by (simp add: analyze_dicts_def analyze_mortgage_sections_def analyze_with_def
      find_sections_def checked_items_well_formed)

theorem C8_witness:
  "analyze_dicts [\<lparr>raw_text = Some ''AFFIDAVIT'', raw_page = Some 2, raw_method = ''pdfplumber''\<rparr>]
     = Inr [affidavit_section]"
  using C8_total_on_well_formed [of "[\<lparr>raw_text = Some ''AFFIDAVIT'', raw_page = Some 2, raw_method = ''pdfplumber''\<rparr>]"]
  by (simp add: well_formed_def as_fragment_def run_affidavit)

text \<open>
  Claim C9. On the single fragment with text \<open>PROMISSORY NOTE\<close> on page 3 the result is
  exactly one record: section type \<open>Promissory Note\<close>, page 3, confidence high, matched
  pattern \<open>PROMISSORY NOTE\<close>, priority 10 (and the text itself as the snippet).
\<close>

theorem C9_scenario_promissory_note:
  "analyze_mortgage_sections
     [\<lparr>item_text = ''PROMISSORY NOTE'', item_page = 3, item_method = ''primary''\<rparr>]
   = [\<lparr>section_type = ''Promissory Note'', page = 3, confidence = High,
       text_snippet = ''PROMISSORY NOTE'', priority = 10,
       pattern_matched = ''PROMISSORY NOTE''\<rparr>]"
  by code_simp

text \<open>
  Claim C10. Appending a fragment never removes a label from the result and never lowers
  its confidence: for every record of the result on \<open>s\<close> the result on \<open>s @ [f]\<close> holds a
  record of the same section type whose confidence ranks at least as high.
\<close>

theorem C10_append_monotone:
  "\<forall>x\<in>set (analyze_mortgage_sections s).
     \<exists>y\<in>set (analyze_mortgage_sections (s @ [f])).
       section_type y = section_type x \<and>
       confidence_rank (confidence x) \<le> confidence_rank (confidence y)"
proof
  fix x assume "x \<in> set (analyze_mortgage_sections s)"
  then obtain r where r: "r \<in> set section_rules" and e: "entry_of r s = Some x"
    unfolding analyze_mortgage_sections_def in_analyze_with_iff [OF distinct_labels] by blast
  obtain y where y: "entry_step r f (Some x) = Some y" "section_type y = section_type x"
      "confidence_rank (confidence x) \<le> confidence_rank (confidence y)"
    using entry_step_grows by blast
  have "entry_of r (s @ [f]) = Some y" using e y(1) by (simp add: entry_of_snoc)
  with r have "y \<in> set (analyze_mortgage_sections (s @ [f]))"
    unfolding analyze_mortgage_sections_def in_analyze_with_iff [OF distinct_labels] by blast
  with y show "\<exists>y\<in>set (analyze_mortgage_sections (s @ [f])).
       section_type y = section_type x \<and>
       confidence_rank (confidence x) \<le> confidence_rank (confidence y)" by blast
qed

theorem C10_witness:
  "\<exists>y\<in>set (analyze_mortgage_sections [affidavit_line, sworn_line]).
     section_type y = ''Affidavit'' \<and> confidence_rank High \<le> confidence_rank (confidence y)"
  using C10_append_monotone [of "[affidavit_line]" sworn_line] by (simp add: run_affidavit)

end
